theory Spec2Isabelle
  imports Complex_Main "HOL-Library.Multiset"
begin

section \<open>Strings\<close>

text \<open>
  The string methods of the source: \<^verbatim>\<open>s.startsWith(p)\<close>, \<^verbatim>\<open>s.includes(p)\<close> and the
  decimal rendering of a number inside a template literal. Strings are lists of
  characters; both methods compare characters exactly (they are case-sensitive).
\<close>

definition startsWith :: "string \<Rightarrow> string \<Rightarrow> bool" where
  "startsWith s p = (take (length p) s = p)"

fun includes_str :: "string \<Rightarrow> string \<Rightarrow> bool" where
  "includes_str [] p = (p = [])"
| "includes_str (c # s) p = (startsWith (c # s) p \<or> includes_str s p)"

definition digit_char :: "nat \<Rightarrow> char" where
  "digit_char d = char_of (48 + d)"

function show_nat :: "nat \<Rightarrow> string" where
  "show_nat n = (if n < 10 then [digit_char n] else show_nat (n div 10) @ [digit_char (n mod 10)])"
  by pat_completeness auto
termination
  by (relation "measure id") auto

definition show_int :: "int \<Rightarrow> string" where
  "show_int i = (if i < 0 then CHR ''-'' # show_nat (nat (- i)) else show_nat (nat i))"

section \<open>The platform's URL class\<close>

text \<open>
  \<^verbatim>\<open>new URL(input, base)\<close>, the getters \<^verbatim>\<open>href\<close>, \<^verbatim>\<open>hostname\<close>, \<^verbatim>\<open>pathname\<close> and the
  setters \<^verbatim>\<open>search\<close> and \<^verbatim>\<open>hash\<close> belong to the JavaScript platform, not to the
  repository. A URL object is the record of the URL Standard. The getters and the two
  setters are short and are written out below. The parser is a parameter of
  everything that follows: a function from the input and an optional parsed base to
  a URL record, \<open>None\<close> where the constructor throws a TypeError.
\<close>

datatype url_path = Opaque string | Segments "string list"

record URL =
  scheme :: string
  username :: string
  password :: string
  host :: "string option"
  port :: "nat option"
  url_path :: url_path
  query :: "string option"
  fragment :: "string option"

type_synonym url_parser = "string \<Rightarrow> URL option \<Rightarrow> URL option"

text \<open>
  The constructor: a base, when given, is a string and is parsed first (without a
  base of its own); a failure of either parse throws.
\<close>

definition URL_new :: "url_parser \<Rightarrow> string \<Rightarrow> string option \<Rightarrow> URL option" where
  "URL_new P input base =
     (case base of
        None \<Rightarrow> P input None
      | Some b \<Rightarrow> (case P b None of None \<Rightarrow> None | Some pb \<Rightarrow> P input (Some pb)))"

definition serialize_path :: "url_path \<Rightarrow> string" where
  "serialize_path p =
     (case p of Opaque s \<Rightarrow> s | Segments segs \<Rightarrow> concat (map (\<lambda>s. CHR ''/'' # s) segs))"

definition pathname :: "URL \<Rightarrow> string" where
  "pathname u = serialize_path (url_path u)"

definition hostname :: "URL \<Rightarrow> string" where
  "hostname u = (case host u of None \<Rightarrow> [] | Some h \<Rightarrow> h)"

definition serialize_authority :: "URL \<Rightarrow> string" where
  "serialize_authority u =
     (case host u of
        None \<Rightarrow>
          (case url_path u of
             Segments (s # t # segs) \<Rightarrow> (if s = [] then ''/.'' else [])
           | _ \<Rightarrow> [])
      | Some h \<Rightarrow>
          ''//''
          @ (if username u \<noteq> [] \<or> password u \<noteq> []
             then username u @ (if password u \<noteq> [] then CHR '':'' # password u else []) @ ''@''
             else [])
          @ h
          @ (case port u of None \<Rightarrow> [] | Some n \<Rightarrow> CHR '':'' # show_nat n))"

definition href :: "URL \<Rightarrow> string" where
  "href u =
     scheme u @ '':'' @ serialize_authority u @ serialize_path (url_path u)
     @ (case query u of None \<Rightarrow> [] | Some q \<Rightarrow> CHR ''?'' # q)
     @ (case fragment u of None \<Rightarrow> [] | Some f \<Rightarrow> CHR ''#'' # f)"

text \<open>
  Assigning the empty string to \<^verbatim>\<open>search\<close> or to \<^verbatim>\<open>hash\<close> sets the component to null
  and then strips the trailing spaces of an opaque path, provided neither a query nor a
  fragment is left.
\<close>

fun strip_trailing_spaces :: "string \<Rightarrow> string" where
  "strip_trailing_spaces s = rev (dropWhile (\<lambda>c. c = CHR '' '') (rev s))"

definition potentially_strip :: "URL \<Rightarrow> URL" where
  "potentially_strip u =
     (case url_path u of
        Segments _ \<Rightarrow> u
      | Opaque s \<Rightarrow>
          (if fragment u \<noteq> None \<or> query u \<noteq> None then u
           else u\<lparr>url_path := Opaque (strip_trailing_spaces s)\<rparr>))"

definition clear_search :: "URL \<Rightarrow> URL" where
  "clear_search u = potentially_strip (u\<lparr>query := None\<rparr>)"

definition clear_hash :: "URL \<Rightarrow> URL" where
  "clear_hash u = potentially_strip (u\<lparr>fragment := None\<rparr>)"

section \<open>The helpers of getRoutesFromPage\<close>

text \<open>
  \<open>normalizeUrl\<close> (lines 32-53): the empty link and the links that start with one of six
  prefixes give the empty string; so does a link the constructor rejects (the catch
  block); any other link is resolved against the base and returned without query and
  fragment.
\<close>

definition normalizeUrl :: "url_parser \<Rightarrow> string \<Rightarrow> string \<Rightarrow> string" where
  "normalizeUrl P baseUrl link =
     (if link = [] \<or> startsWith link ''javascript:'' \<or> startsWith link ''#''
         \<or> startsWith link ''mailto:'' \<or> startsWith link ''tel:''
         \<or> startsWith link ''data:'' \<or> startsWith link ''blob:''
      then []
      else (case URL_new P link (Some baseUrl) of
              None \<Rightarrow> []
            | Some urlObj \<Rightarrow> href (clear_hash (clear_search urlObj))))"

text \<open>
  \<open>getPathFromUrl\<close> (lines 55-62): the pathname without one trailing slash, the root
  path kept as it is; the input itself when it does not parse.
\<close>

definition strip_one_slash :: "string \<Rightarrow> string" where
  "strip_one_slash s = (if s \<noteq> [] \<and> last s = CHR ''/'' then butlast s else s)"

definition getPathFromUrl :: "url_parser \<Rightarrow> string \<Rightarrow> string" where
  "getPathFromUrl P u =
     (case URL_new P u None of
        None \<Rightarrow> u
      | Some urlObj \<Rightarrow> (if pathname urlObj = ''/'' then ''/'' else strip_one_slash (pathname urlObj)))"

text \<open>\<open>isValidUrl\<close> (lines 64-71): the hostname is compared for equality, nothing else.\<close>

definition isValidUrl :: "url_parser \<Rightarrow> string \<Rightarrow> string \<Rightarrow> bool" where
  "isValidUrl P u baseDomain =
     (case URL_new P u None of None \<Rightarrow> False | Some urlObj \<Rightarrow> hostname urlObj = baseDomain)"

section \<open>Data model\<close>

text \<open>
  A JavaScript number that the crawl compares with one of its counters: a finite value
  (a real here; every finite double is one), an infinity, or NaN. The counters
  themselves, \<open>depth\<close> and \<open>pageCount\<close>, start at zero and grow by one, so they are
  integers. The three comparisons of the source follow IEEE 754: every comparison with
  NaN is false.
\<close>

datatype number = Finite real | PosInfinity | NegInfinity | NaN

fun gt_num :: "int \<Rightarrow> number \<Rightarrow> bool" where
  "gt_num k (Finite r) = (real_of_int k > r)"
| "gt_num k PosInfinity = False"
| "gt_num k NegInfinity = True"
| "gt_num k NaN = False"

fun ge_num :: "int \<Rightarrow> number \<Rightarrow> bool" where
  "ge_num k (Finite r) = (real_of_int k \<ge> r)"
| "ge_num k PosInfinity = False"
| "ge_num k NegInfinity = True"
| "ge_num k NaN = False"

fun lt_num :: "int \<Rightarrow> number \<Rightarrow> bool" where
  "lt_num k (Finite r) = (real_of_int k < r)"
| "lt_num k PosInfinity = True"
| "lt_num k NegInfinity = False"
| "lt_num k NaN = False"

text \<open>
  The interfaces \<open>RouteNode\<close> and \<open>CrawlOptions\<close> (lines 5-18). An optional field is an
  option. \<open>maxDepth\<close> and \<open>maxPages\<close> are numbers in the sense above; \<open>timeout\<close> and
  \<open>delay\<close> only set timers and are kept as whole milliseconds, as is a status code. The
  destructuring at line 24 gives every absent option its default.
\<close>

datatype RouteNode =
  RouteNode (path: string) (url: string) (children: "RouteNode list")
    (status: "int option") (error: "string option")

record CrawlOptions =
  maxDepth :: "number option"
  maxPages :: "number option"
  timeout :: "int option"
  delay :: "int option"

definition the_maxDepth :: "CrawlOptions \<Rightarrow> number" where
  "the_maxDepth options = (case maxDepth options of None \<Rightarrow> Finite 2 | Some d \<Rightarrow> d)"

definition the_maxPages :: "CrawlOptions \<Rightarrow> number" where
  "the_maxPages options = (case maxPages options of None \<Rightarrow> Finite 50 | Some n \<Rightarrow> n)"

definition the_timeout :: "CrawlOptions \<Rightarrow> int" where
  "the_timeout options = (case timeout options of None \<Rightarrow> 10000 | Some n \<Rightarrow> n)"

definition the_delay :: "CrawlOptions \<Rightarrow> int" where
  "the_delay options = (case delay options of None \<Rightarrow> 500 | Some n \<Rightarrow> n)"

fun nodes :: "RouteNode \<Rightarrow> RouteNode list" where
  "nodes (RouteNode p u cs s e) = RouteNode p u cs s e # concat (map nodes cs)"

section \<open>The network\<close>

text \<open>
  What the crawler reads of a \<open>Response\<close>: the status code, the content-type header
  (\<open>None\<close> when \<^verbatim>\<open>headers.get\<close> answers null) and the outcome of \<^verbatim>\<open>response.text()\<close>
  followed by the HTML library: either the promise rejects with a thrown value, or the
  document is read and its \<^verbatim>\<open>a[href]\<close> elements have the given href attributes, in
  document order. \<open>ok\<close> is the getter of the Fetch Standard.
\<close>

datatype thrown = Error string | NonError

datatype body_result = Rejects thrown | Anchors "string list"

record Response =
  resp_status :: int
  content_type :: "string option"
  body :: body_result

definition ok :: "Response \<Rightarrow> bool" where
  "ok r = (200 \<le> resp_status r \<and> resp_status r \<le> 299)"

text \<open>
  The effects a crawl has on the outside: a request for a URL, and a pause of so many
  milliseconds (\<open>sleep\<close>, lines 29-30).
\<close>

datatype effect = Fetch string | Sleep int

text \<open>
  \<open>fetchWithRetry\<close> (lines 73-106). \<open>attempt i\<close> is what the network answers to the
  request of iteration \<open>i\<close>: a response, or \<open>None\<close> when \<^verbatim>\<open>fetch\<close> rejects (a transport
  error, or the abort the timer of line 80 triggers). The function returns the response
  or null, together with the effects it had, in order.
\<close>

function fetchWithRetry_loop ::
  "(nat \<Rightarrow> Response option) \<Rightarrow> string \<Rightarrow> nat \<Rightarrow> nat \<Rightarrow> Response option \<times> effect list" where
  "fetchWithRetry_loop attempt u retries i =
     (if i \<le> retries then
        (case attempt i of
           Some response \<Rightarrow> (Some response, [Fetch u])
         | None \<Rightarrow>
             (if i = retries then (None, [Fetch u])
              else (let (r, es) = fetchWithRetry_loop attempt u retries (Suc i)
                    in (r, Fetch u # Sleep (1000 * (int i + 1)) # es))))
      else (None, []))"
  by pat_completeness auto
termination
  by (relation "measure (\<lambda>(attempt, u, retries, i). Suc retries - i)") auto

definition fetchWithRetry :: "(nat \<Rightarrow> Response option) \<Rightarrow> string \<Rightarrow> Response option \<times> effect list" where
  "fetchWithRetry attempt u = fetchWithRetry_loop attempt u 2 0"

section \<open>The crawl\<close>

text \<open>
  The shared variables of one call of \<open>getRoutesFromPage\<close> (lines 26-27), and the log of
  its effects.
\<close>

record crawl_state =
  visited :: "string set"
  pageCount :: int
  effects :: "effect list"

definition init_state :: crawl_state where
  "init_state = \<lparr>visited = {}, pageCount = 0, effects = []\<rparr>"

text \<open>
  \<open>crawlPage\<close> is asynchronous and its calls for the links of one page run concurrently
  (lines 190-198). JavaScript runs one call at a time and switches only at an \<^verbatim>\<open>await\<close>,
  so a call is a sequence of blocks that run without interruption:
  \<^item> lines 113-133, from the call to the first \<^verbatim>\<open>await\<close>: \<open>crawlPage_enter\<close>. It runs
    inside the caller's loop, before the caller goes on to the next link.
  \<^item> lines 136-196, entered when the pause, the requests and the body have settled:
    \<open>crawlPage_resume\<close>. None of the awaited operations touches \<open>visited\<close> or
    \<open>pageCount\<close>, so they are delivered together, as one event.
  \<^item> lines 198-206, when every child has settled: \<open>settle\<close>.
  A call in progress is a \<open>task\<close>, the state of its promise: fulfilled with its node,
  rejected with a thrown value, waiting for its page, or waiting for its children.
  Which waiting call is resumed next, and with what answer of the network, is decided
  by a schedule, so that a statement about every schedule is a statement about every
  interleaving.
\<close>

datatype task =
  Done RouteNode
| Rejected thrown
| Pending string int
| Joining string string int "task list"

definition crawlPage_enter ::
  "url_parser \<Rightarrow> CrawlOptions \<Rightarrow> string \<Rightarrow> int \<Rightarrow> crawl_state \<Rightarrow> task \<times> crawl_state" where
  "crawlPage_enter P options currentUrl depth st =
     (let p = getPathFromUrl P currentUrl in
      if gt_num depth (the_maxDepth options) \<or> ge_num (pageCount st) (the_maxPages options) then
        (Done (RouteNode p currentUrl [] None
           (Some (if gt_num depth (the_maxDepth options) then ''Max depth reached''
                  else ''Max pages reached''))), st)
      else if currentUrl \<in> visited st then
        (Done (RouteNode p currentUrl [] None None), st)
      else
        (let st1 = st\<lparr>visited := insert currentUrl (visited st), pageCount := pageCount st + 1\<rparr>;
             st2 = (if the_delay options > 0 \<and> pageCount st1 > 1
                    then st1\<lparr>effects := effects st1 @ [Sleep (the_delay options)]\<rparr>
                    else st1)
         in (Pending currentUrl depth, st2)))"

text \<open>
  Lines 171-181: the set \<open>links\<close>, in insertion order. An empty href is skipped, a link
  is kept when it normalizes to a non-empty string whose hostname is the base domain.
\<close>

definition add_link :: "string list \<Rightarrow> string \<Rightarrow> string list" where
  "add_link links u = (if u \<in> set links then links else links @ [u])"

definition extract_links :: "url_parser \<Rightarrow> string \<Rightarrow> string \<Rightarrow> string list \<Rightarrow> string list" where
  "extract_links P currentUrl baseDomain hrefs =
     foldl (\<lambda>links h.
              if h = [] then links
              else (let normalizedUrl = normalizeUrl P currentUrl h in
                    if normalizedUrl \<noteq> [] \<and> isValidUrl P normalizedUrl baseDomain
                    then add_link links normalizedUrl else links))
           [] hrefs"

text \<open>
  Lines 192-196: the loop that calls \<open>crawlPage\<close> for the links. Each call runs its first
  block at once, so the next iteration tests the variables that call has updated.
\<close>

fun spawn ::
  "url_parser \<Rightarrow> CrawlOptions \<Rightarrow> int \<Rightarrow> string list \<Rightarrow> crawl_state \<Rightarrow> task list \<times> crawl_state" where
  "spawn P options depth [] st = ([], st)"
| "spawn P options depth (childUrl # links) st =
     (if childUrl \<notin> visited st \<and> lt_num (pageCount st) (the_maxPages options) then
        (let (t, st1) = crawlPage_enter P options childUrl depth st;
             (ts, st2) = spawn P options depth links st1
         in (t # ts, st2))
      else spawn P options depth links st)"

text \<open>
  Lines 198-206: \<^verbatim>\<open>Promise.allSettled\<close> waits until every child is fulfilled or rejected;
  then the values of the fulfilled children whose path differs from the parent's are
  pushed, in the order of the calls, and the node is returned.
\<close>

fun is_done :: "task \<Rightarrow> bool" where
  "is_done (Done n) = True"
| "is_done (Rejected e) = True"
| "is_done t = False"

fun results :: "task list \<Rightarrow> RouteNode list" where
  "results [] = []"
| "results (Done n # ts) = n # results ts"
| "results (t # ts) = results ts"

fun settle :: "task \<Rightarrow> task" where
  "settle (Joining p u s ts) =
     (if list_all is_done ts
      then Done (RouteNode p u (filter (\<lambda>n. path n \<noteq> p) (results ts)) (Some s) None)
      else Joining p u s ts)"
| "settle t = t"

text \<open>
  The try block of lines 135-206, resumed with the answers of the network: it yields
  the task the call goes on with, or the value thrown inside it. The only statement of
  the block that can throw is the \<^verbatim>\<open>await\<close> of \<^verbatim>\<open>response.text()\<close> with the parsing of
  the document: \<open>fetchWithRetry\<close> catches the failures of \<^verbatim>\<open>fetch\<close> itself (line 100),
  and \<open>normalizeUrl\<close> and \<open>isValidUrl\<close> those of the URL constructor.
\<close>

definition crawlPage_try ::
  "url_parser \<Rightarrow> CrawlOptions \<Rightarrow> string \<Rightarrow> string \<Rightarrow> int \<Rightarrow> (nat \<Rightarrow> Response option)
     \<Rightarrow> crawl_state \<Rightarrow> (thrown + task) \<times> crawl_state" where
  "crawlPage_try P options baseDomain currentUrl depth attempt st =
     (let p = getPathFromUrl P currentUrl;
          (response, es) = fetchWithRetry attempt currentUrl;
          st1 = st\<lparr>effects := effects st @ es\<rparr>
      in case response of
           None \<Rightarrow>
             (Inr (Done (RouteNode p currentUrl [] None (Some ''Failed to fetch after retries''))), st1)
         | Some r \<Rightarrow>
             (if \<not> ok r then
                (Inr (Done (RouteNode p currentUrl [] (Some (resp_status r))
                   (Some (''HTTP '' @ show_int (resp_status r))))), st1)
              else if \<not> includes_str (case content_type r of None \<Rightarrow> [] | Some c \<Rightarrow> c) ''text/html'' then
                (Inr (Done (RouteNode p currentUrl [] None (Some ''Not HTML content''))), st1)
              else
                (case body r of
                   Rejects e \<Rightarrow> (Inl e, st1)
                 | Anchors hrefs \<Rightarrow>
                     (let links = extract_links P currentUrl baseDomain hrefs;
                          (ts, st2) = spawn P options (depth + 1) links st1
                      in (Inr (settle (Joining p currentUrl (resp_status r) ts)), st2)))))"

text \<open>
  The catch block of lines 207-214 turns a value thrown in the try block into a node
  with an error. Nothing of \<open>crawlPage\<close> is outside the try block but lines 113-133,
  which cannot throw, so the promise of a call is never rejected by its own body.
\<close>

definition caught :: "thrown \<Rightarrow> string" where
  "caught e = (case e of Error message \<Rightarrow> message | NonError \<Rightarrow> ''Unknown error'')"

definition crawlPage_resume ::
  "url_parser \<Rightarrow> CrawlOptions \<Rightarrow> string \<Rightarrow> string \<Rightarrow> int \<Rightarrow> (nat \<Rightarrow> Response option)
     \<Rightarrow> crawl_state \<Rightarrow> task \<times> crawl_state" where
  "crawlPage_resume P options baseDomain currentUrl depth attempt st =
     (case crawlPage_try P options baseDomain currentUrl depth attempt st of
        (Inr t, st') \<Rightarrow> (t, st')
      | (Inl e, st') \<Rightarrow>
          (Done (RouteNode (getPathFromUrl P currentUrl) currentUrl [] None (Some (caught e))), st'))"

text \<open>
  An event names a waiting call by its position in the tree of calls and carries the
  network's answers to its requests. An event that names no waiting call changes
  nothing.
\<close>

type_synonym event = "nat list \<times> (nat \<Rightarrow> Response option)"

fun deliver ::
  "url_parser \<Rightarrow> CrawlOptions \<Rightarrow> string \<Rightarrow> nat list \<Rightarrow> (nat \<Rightarrow> Response option)
     \<Rightarrow> task \<Rightarrow> crawl_state \<Rightarrow> task \<times> crawl_state" where
  "deliver P options baseDomain [] attempt (Pending u depth) st =
     crawlPage_resume P options baseDomain u depth attempt st"
| "deliver P options baseDomain (i # pos) attempt (Joining p u s ts) st =
     (if i < length ts then
        (let (t', st') = deliver P options baseDomain pos attempt (ts ! i) st
         in (settle (Joining p u s (ts[i := t'])), st'))
      else (Joining p u s ts, st))"
| "deliver P options baseDomain pos attempt t st = (t, st)"

fun run ::
  "url_parser \<Rightarrow> CrawlOptions \<Rightarrow> string \<Rightarrow> event list \<Rightarrow> task \<times> crawl_state \<Rightarrow> task \<times> crawl_state" where
  "run P options baseDomain [] c = c"
| "run P options baseDomain ((pos, attempt) # sched) c =
     run P options baseDomain sched (deliver P options baseDomain pos attempt (fst c) (snd c))"

text \<open>
  \<open>getRoutesFromPage\<close> (lines 217-230): the start string is given the prefix
  \<^verbatim>\<open>https://\<close> unless it starts with \<^verbatim>\<open>http\<close>, and parsed; when the constructor throws,
  the catch block returns the node of the invalid start; otherwise the root call of
  \<open>crawlPage\<close> is made and the schedule is run. The same catch block would answer a
  rejected root call. The value is the root task and the shared state after the
  schedule; the promise has resolved with \<open>n\<close> when the root is \<open>Done n\<close>.
\<close>

definition getRoutesFromPage ::
  "url_parser \<Rightarrow> string \<Rightarrow> CrawlOptions \<Rightarrow> event list \<Rightarrow> task \<times> crawl_state" where
  "getRoutesFromPage P start options sched =
     (case URL_new P (if startsWith start ''http'' then start else ''https://'' @ start) None of
        None \<Rightarrow> (Done (RouteNode ''/'' start [] None (Some ''Invalid starting URL'')), init_state)
      | Some baseUrl \<Rightarrow>
          (let c = run P options (hostname baseUrl) sched
                     (crawlPage_enter P options (href baseUrl) 0 init_state)
           in case fst c of
                Rejected e \<Rightarrow>
                  (Done (RouteNode ''/'' start [] None (Some ''Invalid starting URL'')), snd c)
              | _ \<Rightarrow> c))"

definition resolved :: "task \<times> crawl_state \<Rightarrow> RouteNode option" where
  "resolved c = (case fst c of Done n \<Rightarrow> Some n | _ \<Rightarrow> None)"

text \<open>The URLs for which a request has been issued.\<close>

fun fetched_urls :: "effect list \<Rightarrow> string list" where
  "fetched_urls [] = []"
| "fetched_urls (Fetch u # es) = u # fetched_urls es"
| "fetched_urls (Sleep ms # es) = fetched_urls es"


section \<open>A URL parser for the closed examples\<close>

text \<open>
  Modelled from the URL Standard (the parser is platform code, absent from the
  repository): the basic URL parser, restricted to inputs of printable ASCII characters
  of which only a space in a path needs percent-encoding, without credentials,
  backslashes, IP-address hosts and
  the \<^verbatim>\<open>file\<close> scheme, and, for a scheme that is not special, without a slash after the
  colon. Inside this fragment it follows the standard's state machine: leading and
  trailing spaces and control characters are removed, as are tabs and newlines anywhere;
  the scheme is lower-cased; a special scheme takes an authority whose host is
  lower-cased and must be free of forbidden code points; a port equal to the scheme's
  default is dropped; dot segments are resolved; any other scheme takes an opaque path;
  an input without a scheme is resolved against the base. Only the examples below use
  it, on inputs of this fragment; every general theorem is about an arbitrary parser.
\<close>

definition is_alpha :: "char \<Rightarrow> bool" where
  "is_alpha c = ((65 \<le> (of_char c :: nat) \<and> (of_char c :: nat) \<le> 90)
                 \<or> (97 \<le> (of_char c :: nat) \<and> (of_char c :: nat) \<le> 122))"

definition is_digit :: "char \<Rightarrow> bool" where
  "is_digit c = (48 \<le> (of_char c :: nat) \<and> (of_char c :: nat) \<le> 57)"

definition to_lower :: "char \<Rightarrow> char" where
  "to_lower c = (if 65 \<le> (of_char c :: nat) \<and> (of_char c :: nat) \<le> 90
                 then char_of ((of_char c :: nat) + 32) else c)"

definition is_c0_or_space :: "char \<Rightarrow> bool" where
  "is_c0_or_space c = ((of_char c :: nat) \<le> 32)"

definition is_tab_or_newline :: "char \<Rightarrow> bool" where
  "is_tab_or_newline c = ((of_char c :: nat) \<in> {9, 10, 13})"

definition clean_input :: "string \<Rightarrow> string" where
  "clean_input s =
     filter (\<lambda>c. \<not> is_tab_or_newline c)
       (rev (dropWhile is_c0_or_space (rev (dropWhile is_c0_or_space s))))"

definition split_first :: "char \<Rightarrow> string \<Rightarrow> string \<times> string option" where
  "split_first c s =
     (takeWhile (\<lambda>x. x \<noteq> c) s,
      case dropWhile (\<lambda>x. x \<noteq> c) s of [] \<Rightarrow> None | x # r \<Rightarrow> Some r)"

definition is_scheme_char :: "char \<Rightarrow> bool" where
  "is_scheme_char c = (is_alpha c \<or> is_digit c \<or> c \<in> {CHR ''+'', CHR ''-'', CHR ''.''})"

definition split_scheme :: "string \<Rightarrow> (string \<times> string) option" where
  "split_scheme s =
     (case s of
        [] \<Rightarrow> None
      | a # t \<Rightarrow>
          (if is_alpha a then
             (case dropWhile is_scheme_char s of
                [] \<Rightarrow> None
              | x # r \<Rightarrow> (if x = CHR '':'' then Some (map to_lower (takeWhile is_scheme_char s), r)
                           else None))
           else None))"

definition default_port :: "string \<Rightarrow> nat option" where
  "default_port sch =
     (if sch = ''http'' \<or> sch = ''ws'' then Some 80
      else if sch = ''https'' \<or> sch = ''wss'' then Some 443
      else if sch = ''ftp'' then Some 21
      else None)"

definition is_special :: "string \<Rightarrow> bool" where
  "is_special sch = (default_port sch \<noteq> None)"

definition forbidden_domain_char :: "char \<Rightarrow> bool" where
  "forbidden_domain_char c =
     ((of_char c :: nat) \<le> 32 \<or> (of_char c :: nat) = 127
      \<or> c \<in> {CHR ''#'', CHR ''/'', CHR '':'', CHR ''<'', CHR ''>'', CHR ''?'', CHR ''@'',
               CHR ''['', CHR 0x5C, CHR '']'', CHR ''^'', CHR ''|'', CHR ''%''})"

definition parse_host :: "string \<Rightarrow> string option" where
  "parse_host h =
     (if h = [] \<or> list_ex forbidden_domain_char h then None else Some (map to_lower h))"

fun digits_value :: "nat \<Rightarrow> string \<Rightarrow> nat" where
  "digits_value acc [] = acc"
| "digits_value acc (c # cs) = digits_value (10 * acc + ((of_char c :: nat) - 48)) cs"

definition parse_port :: "string \<Rightarrow> string option \<Rightarrow> nat option option" where
  "parse_port sch p =
     (case p of
        None \<Rightarrow> Some None
      | Some ds \<Rightarrow>
          (if \<not> list_all is_digit ds then None
           else if ds = [] then Some None
           else if digits_value 0 ds > 65535 then None
           else if Some (digits_value 0 ds) = default_port sch then Some None
           else Some (Some (digits_value 0 ds))))"

definition push_segment :: "string list \<Rightarrow> string \<Rightarrow> bool \<Rightarrow> string list" where
  "push_segment acc buf at_end =
     (if buf = ''..'' then (if at_end then butlast acc @ [[]] else butlast acc)
      else if buf = ''.'' then (if at_end then acc @ [[]] else acc)
      else acc @ [buf])"

definition percent_encode :: "char \<Rightarrow> string" where
  "percent_encode c = (if c = CHR '' '' then ''%20'' else [c])"

fun path_state :: "string list \<Rightarrow> string \<Rightarrow> string \<Rightarrow> string list" where
  "path_state acc buf [] = push_segment acc buf True"
| "path_state acc buf (c # cs) =
     (if c = CHR ''/'' then path_state (push_segment acc buf False) [] cs
      else path_state acc (buf @ percent_encode c) cs)"

definition parse_authority ::
  "string \<Rightarrow> string \<Rightarrow> string option \<Rightarrow> string option \<Rightarrow> URL option" where
  "parse_authority sch r q f =
     (let r1 = dropWhile (\<lambda>c. c = CHR ''/'') r;
          auth = takeWhile (\<lambda>c. c \<noteq> CHR ''/'') r1;
          rest = dropWhile (\<lambda>c. c \<noteq> CHR ''/'') r1;
          (h, p) = split_first CHR '':'' auth
      in case parse_host h of
           None \<Rightarrow> None
         | Some hst \<Rightarrow>
             (case parse_port sch p of
                None \<Rightarrow> None
              | Some prt \<Rightarrow>
                  Some \<lparr>scheme = sch, username = [], password = [], host = Some hst, port = prt,
                        url_path = Segments (path_state [] [] (case rest of [] \<Rightarrow> [] | x # t \<Rightarrow> t)),
                        query = q, fragment = f\<rparr>))"

definition parse_relative ::
  "URL \<Rightarrow> string \<Rightarrow> string option \<Rightarrow> string option \<Rightarrow> URL option" where
  "parse_relative b r q f =
     (case url_path b of
        Opaque s \<Rightarrow> (if r = [] \<and> q = None \<and> f \<noteq> None then Some (b\<lparr>fragment := f\<rparr>) else None)
      | Segments segs \<Rightarrow>
          (case r of
             [] \<Rightarrow> Some (b\<lparr>query := (case q of None \<Rightarrow> query b | Some x \<Rightarrow> Some x), fragment := f\<rparr>)
           | c # t \<Rightarrow>
               (if c = CHR ''/'' then
                  (if startsWith t ''/'' then
                     (if is_special (scheme b) then parse_authority (scheme b) t q f else None)
                   else Some (b\<lparr>url_path := Segments (path_state [] [] t), query := q, fragment := f\<rparr>))
                else Some (b\<lparr>url_path := Segments (path_state (butlast segs) [] r),
                             query := q, fragment := f\<rparr>))))"

definition url_parse :: url_parser where
  "url_parse input base =
     (let s = clean_input input;
          (s1, f) = split_first CHR ''#'' s;
          (s2, q) = split_first CHR ''?'' s1
      in case split_scheme s2 of
           None \<Rightarrow> (case base of None \<Rightarrow> None | Some b \<Rightarrow> parse_relative b s2 q f)
         | Some (sch, r) \<Rightarrow>
             (if is_special sch then
                (if startsWith r ''//'' then parse_authority sch r q f
                 else (case base of
                         None \<Rightarrow> parse_authority sch r q f
                       | Some b \<Rightarrow> (if scheme b = sch then parse_relative b r q f
                                    else parse_authority sch r q f)))
              else if sch = ''file'' \<or> startsWith r ''/'' then None
              else Some \<lparr>scheme = sch, username = [], password = [], host = None, port = None,
                        url_path = Opaque r, query = q, fragment = f\<rparr>))"

section \<open>Inputs of the closed examples\<close>

text \<open>
  A network that answers the successive requests for a URL from a list, and rejects
  every request after the list's end; a page of a given status, content type and
  anchors.
\<close>

definition answers :: "Response option list \<Rightarrow> nat \<Rightarrow> Response option" where
  "answers rs i = (if i < length rs then rs ! i else None)"

definition page :: "int \<Rightarrow> string \<Rightarrow> string list \<Rightarrow> Response" where
  "page s ct hrefs = \<lparr>resp_status = s, content_type = Some ct, body = Anchors hrefs\<rparr>"

definition default_options :: CrawlOptions where
  "default_options = \<lparr>maxDepth = None, maxPages = None, timeout = None, delay = None\<rparr>"

section \<open>What the statements speak of\<close>

text \<open>
  The nodes settled so far inside a task, the URLs of all its calls (settled or not), and
  the URLs of the calls that still wait for their page.
\<close>

fun task_nodes :: "task \<Rightarrow> RouteNode list" where
  "task_nodes (Done n) = nodes n"
| "task_nodes (Rejected e) = []"
| "task_nodes (Pending u d) = []"
| "task_nodes (Joining p u s ts) = concat (map task_nodes ts)"

fun task_urls :: "task \<Rightarrow> string list" where
  "task_urls (Done n) = map url (nodes n)"
| "task_urls (Rejected e) = []"
| "task_urls (Pending u d) = [u]"
| "task_urls (Joining p u s ts) = u # concat (map task_urls ts)"


text \<open>
  The disjunction of the data model: a node has a status and no error, or it has an
  error, and not both descriptions at once.
\<close>

definition labelled :: "RouteNode \<Rightarrow> bool" where
  "labelled n =
     (((status n \<noteq> None \<and> error n = None) \<or> error n \<noteq> None)
      \<and> \<not> ((status n \<noteq> None \<and> error n = None) \<and> error n \<noteq> None))"

text \<open>
  A position names a waiting call; one step of a crawl resumes a waiting call with some
  answer of the network. A task is \<open>joined\<close> when no call in it waits for children that
  have all settled, and \<open>unrejected\<close> when no promise in it is rejected.
\<close>

fun pending_at :: "nat list \<Rightarrow> task \<Rightarrow> bool" where
  "pending_at [] (Pending u d) = True"
| "pending_at (i # pos) (Joining p u s ts) = (i < length ts \<and> pending_at pos (ts ! i))"
| "pending_at pos t = False"

definition crawl_step ::
  "url_parser \<Rightarrow> CrawlOptions \<Rightarrow> string \<Rightarrow> ((task \<times> crawl_state) \<times> (task \<times> crawl_state)) set" where
  "crawl_step P options baseDomain =
     {(c', c). \<exists>pos attempt. pending_at pos (fst c)
                \<and> c' = deliver P options baseDomain pos attempt (fst c) (snd c)}"

fun joined :: "task \<Rightarrow> bool" where
  "joined (Done n) = True"
| "joined (Rejected e) = True"
| "joined (Pending u d) = True"
| "joined (Joining p u s ts) = (\<not> list_all is_done ts \<and> list_all joined ts)"

fun unrejected :: "task \<Rightarrow> bool" where
  "unrejected (Done n) = True"
| "unrejected (Rejected e) = False"
| "unrejected (Pending u d) = True"
| "unrejected (Joining p u s ts) = list_all unrejected ts"

text \<open>
  The first \<open>k\<close> events of an endless sequence of events.
\<close>

definition first_events :: "(nat \<Rightarrow> event) \<Rightarrow> nat \<Rightarrow> event list" where
  "first_events es k = map es [0..<k]"

text \<open>
  Two measures of termination. When the depth is limited, every waiting call weighs
  the depth it has left, and a task weighs the multiset of its waiting calls. When the
  pages are limited, a configuration costs twice the pages it may still count plus the
  number of its waiting calls.
\<close>

fun depth_limited :: "number \<Rightarrow> bool" where
  "depth_limited (Finite r) = True"
| "depth_limited NegInfinity = True"
| "depth_limited PosInfinity = False"
| "depth_limited NaN = False"

fun pages_limited :: "number \<Rightarrow> bool" where
  "pages_limited PosInfinity = False"
| "pages_limited x = True"

fun depth_left :: "number \<Rightarrow> int \<Rightarrow> nat" where
  "depth_left (Finite r) d = nat (\<lfloor>r\<rfloor> + 1 - d)"
| "depth_left x d = 0"

fun weight :: "number \<Rightarrow> task \<Rightarrow> nat multiset" where
  "weight md (Done n) = {#}"
| "weight md (Rejected e) = {#}"
| "weight md (Pending u d) = {#depth_left md d#}"
| "weight md (Joining p u s ts) = sum_list (map (weight md) ts)"

fun pages_left :: "number \<Rightarrow> int \<Rightarrow> nat" where
  "pages_left (Finite r) n = nat (\<lceil>r\<rceil> - n)"
| "pages_left x n = 0"

fun count_pending :: "task \<Rightarrow> nat" where
  "count_pending (Done n) = 0"
| "count_pending (Rejected e) = 0"
| "count_pending (Pending u d) = 1"
| "count_pending (Joining p u s ts) = sum_list (map count_pending ts)"

definition cost :: "CrawlOptions \<Rightarrow> task \<times> crawl_state \<Rightarrow> nat" where
  "cost options c =
     2 * pages_left (the_maxPages options) (pageCount (snd c)) + count_pending (fst c)"

definition all_labelled :: "task \<Rightarrow> bool" where
  "all_labelled t = list_all labelled (task_nodes t)"

definition all_valid :: "url_parser \<Rightarrow> string \<Rightarrow> task \<Rightarrow> bool" where
  "all_valid P baseDomain t = list_all (\<lambda>u. isValidUrl P u baseDomain) (task_urls t)"



section \<open>An example crawl\<close>

text \<open>
  The start \<^verbatim>\<open>example.com\<close> with the default options. The root page is HTML and links
  to \<^verbatim>\<open>/b\<close> (twice), to another host, to a subdomain, to \<^verbatim>\<open>/c\<close> with a query, and carries
  a script link; then \<^verbatim>\<open>/b\<close> answers 404 on the second attempt and every request for
  \<^verbatim>\<open>/c\<close> fails.
\<close>

definition example_schedule :: "event list" where
  "example_schedule =
     [([], answers [Some (page 200 ''text/html; charset=utf-8''
                      [''/b'', ''https://other.com/x'', ''/c?x=1#top'', ''JavaScript:void(0)'',
                       ''/b#again'', ''https://www.example.com/d''])]),
      ([0], answers [None, Some (page 404 ''text/html'' [])]),
      ([1], answers [])]"

definition example_tree :: RouteNode where
  "example_tree =
     RouteNode ''/'' ''https://example.com/''
       [RouteNode ''/b'' ''https://example.com/b'' [] (Some 404) (Some ''HTTP 404''),
        RouteNode ''/c'' ''https://example.com/c'' [] None (Some ''Failed to fetch after retries'')]
       (Some 200) None"

text \<open>
  A page \<^verbatim>\<open>/a/\<close> that links to \<^verbatim>\<open>/a\<close>, which has the same path; every request for the
  link fails.
\<close>

definition self_loop_schedule :: "event list" where
  "self_loop_schedule =
     [([], answers [Some (page 200 ''text/html'' [''/a''])]),
      ([0], answers [])]"


text \<open>An endless sequence of events that resume the root call with failing requests.\<close>

definition failing_events :: "nat \<Rightarrow> event" where
  "failing_events k = ([], answers [])"



definition example_base :: URL where
  "example_base =
     \<lparr>scheme = ''https'', username = [], password = [], host = Some ''example.com'', port = None,
      url_path = Segments [[]], query = None, fragment = None\<rparr>"

section \<open>The blocks of a call\<close>

lemma deliver_Done:
  "deliver P options baseDomain pos attempt (Done n) st = (Done n, st)"
  by (cases pos) simp_all

lemma crawlPage_resume_unfold:
  "crawlPage_resume P options baseDomain currentUrl depth attempt st =
     (let p = getPathFromUrl P currentUrl;
          (response, es) = fetchWithRetry attempt currentUrl;
          st1 = st\<lparr>effects := effects st @ es\<rparr>
      in case response of
           None \<Rightarrow>
             (Done (RouteNode p currentUrl [] None (Some ''Failed to fetch after retries'')), st1)
         | Some r \<Rightarrow>
             (if \<not> ok r then
                (Done (RouteNode p currentUrl [] (Some (resp_status r))
                   (Some (''HTTP '' @ show_int (resp_status r)))), st1)
              else if \<not> includes_str (case content_type r of None \<Rightarrow> [] | Some c \<Rightarrow> c) ''text/html'' then
                (Done (RouteNode p currentUrl [] None (Some ''Not HTML content'')), st1)
              else
                (case body r of
                   Rejects e \<Rightarrow> (Done (RouteNode p currentUrl [] None (Some (caught e))), st1)
                 | Anchors hrefs \<Rightarrow>
                     (let links = extract_links P currentUrl baseDomain hrefs;
                          (ts, st2) = spawn P options (depth + 1) links st1
                      in (settle (Joining p currentUrl (resp_status r) ts), st2)))))"
  by (simp add: crawlPage_resume_def crawlPage_try_def Let_def
      split: prod.split option.split body_result.split)

section \<open>No promise is rejected\<close>

lemma enter_unrejected: "unrejected (fst (crawlPage_enter P options c d st))"
  by (simp add: crawlPage_enter_def Let_def)

lemma spawn_unrejected: "list_all unrejected (fst (spawn P options d links st))"
proof (induction links arbitrary: st)
  case Nil
  then show ?case by simp
next
  case (Cons c links)
  show ?case
  proof (cases "c \<notin> visited st \<and> lt_num (pageCount st) (the_maxPages options)")
    case False
    with Cons show ?thesis by auto
  next
    case True
    obtain t1 st1 where e: "crawlPage_enter P options c d st = (t1, st1)" by force
    obtain ts st2 where sp: "spawn P options d links st1 = (ts, st2)" by force
    from enter_unrejected [of P options c d st] e have "unrejected t1" by simp
    moreover from Cons.IH [of st1] sp have "list_all unrejected ts" by simp
    ultimately show ?thesis using True e sp by auto
  qed
qed

lemma settle_unrejected:
  "list_all unrejected ts \<Longrightarrow> unrejected (settle (Joining p u s ts))"
  by simp

lemma try_unrejected:
  "crawlPage_try P options baseDomain u d attempt st = (Inr t, st') \<Longrightarrow> unrejected t"
proof -
  assume a: "crawlPage_try P options baseDomain u d attempt st = (Inr t, st')"
  obtain response es where f: "fetchWithRetry attempt u = (response, es)" by force
  show ?thesis
  proof (cases response)
    case None
    with f a show ?thesis by (auto simp: crawlPage_try_def)
  next
    case (Some r)
    show ?thesis
    proof (cases "ok r \<and> includes_str (case content_type r of None \<Rightarrow> [] | Some c \<Rightarrow> c) ''text/html''")
      case False
      with f Some a show ?thesis
        by (auto simp add: crawlPage_try_def Let_def split: if_splits)
    next
      case True
      show ?thesis
      proof (cases "body r")
        case (Rejects e)
        with f Some True a show ?thesis
          by (simp add: crawlPage_try_def)
      next
        case (Anchors hrefs)
        obtain ts st2 where sp: "spawn P options (d + 1) (extract_links P u baseDomain hrefs)
            (st\<lparr>effects := effects st @ es\<rparr>) = (ts, st2)" by force
        from spawn_unrejected [of P options "d + 1" "extract_links P u baseDomain hrefs"
            "st\<lparr>effects := effects st @ es\<rparr>"] sp
        have "list_all unrejected ts" by simp
        then have "unrejected (settle (Joining (getPathFromUrl P u) u (resp_status r) ts))"
          by (rule settle_unrejected)
        with f Some True Anchors sp a show ?thesis
          by (auto simp add: crawlPage_try_def Let_def simp del: settle.simps)
      qed
    qed
  qed
qed

lemma resume_unrejected:
  "unrejected (fst (crawlPage_resume P options baseDomain u d attempt st))"
proof (cases "crawlPage_try P options baseDomain u d attempt st")
  case (Pair r st')
  then show ?thesis
    by (cases r) (auto simp: crawlPage_resume_def dest: try_unrejected)
qed

lemma deliver_unrejected:
  "unrejected t \<Longrightarrow> unrejected (fst (deliver P options baseDomain pos attempt t st))"
proof (induction P options baseDomain pos attempt t st rule: deliver.induct)
  case (1 P options baseDomain attempt u depth st)
  show ?case by (simp add: resume_unrejected)
next
  case (2 P options baseDomain i pos attempt p u s ts st)
  show ?case
  proof (cases "i < length ts")
    case False
    with 2 show ?thesis by simp
  next
    case True
    obtain t' st' where d: "deliver P options baseDomain pos attempt (ts ! i) st = (t', st')" by force
    from "2.prems" have all: "list_all unrejected ts" by simp
    with True have "unrejected (ts ! i)" by (simp add: list_all_length)
    with "2.IH" [OF True] d have "unrejected t'" by simp
    with all have "list_all unrejected (ts[i := t'])"
      by (auto simp: list_all_iff dest: subsetD [OF set_update_subset_insert])
    then have "unrejected (settle (Joining p u s (ts[i := t'])))" by (rule settle_unrejected)
    with True d show ?thesis by (simp del: settle.simps)
  qed
qed simp_all

lemma run_unrejected:
  "unrejected (fst c) \<Longrightarrow> unrejected (fst (run P options baseDomain sched c))"
proof (induction sched arbitrary: c)
  case Nil
  then show ?case by simp
next
  case (Cons e sched)
  obtain pos attempt where e: "e = (pos, attempt)" by force
  have "unrejected (fst (deliver P options baseDomain pos attempt (fst c) (snd c)))"
    using Cons.prems by (rule deliver_unrejected)
  then show ?case using Cons.IH e by simp
qed

lemma getRoutesFromPage_run:
  assumes "URL_new P (if startsWith start ''http'' then start else ''https://'' @ start) None
           = Some baseUrl"
  shows "getRoutesFromPage P start options sched =
           run P options (hostname baseUrl) sched
             (crawlPage_enter P options (href baseUrl) 0 init_state)"
proof -
  have "unrejected (fst (run P options (hostname baseUrl) sched
            (crawlPage_enter P options (href baseUrl) 0 init_state)))"
    by (rule run_unrejected) (rule enter_unrejected)
  then show ?thesis using assms
    by (cases "fst (run P options (hostname baseUrl) sched
            (crawlPage_enter P options (href baseUrl) 0 init_state))")
      (simp_all add: getRoutesFromPage_def Let_def)
qed

section \<open>The depth limit\<close>

text \<open>
  C4. A call of \<open>crawlPage\<close> at a depth greater than \<open>maxDepth\<close> settles at once with a
  node that has no children, no status and the error "Max depth reached"; the shared
  state and the log of effects are as before the call, and no later event reaches the
  settled call, so no request is ever issued for it.
\<close>

theorem crawlPage_beyond_maxDepth:
  assumes "gt_num depth (the_maxDepth options)"
  shows "crawlPage_enter P options currentUrl depth st =
           (Done (RouteNode (getPathFromUrl P currentUrl) currentUrl [] None
              (Some ''Max depth reached'')), st)
         \<and> deliver P options baseDomain pos attempt
             (fst (crawlPage_enter P options currentUrl depth st)) st'
           = (fst (crawlPage_enter P options currentUrl depth st), st')"
  using assms by (simp add: crawlPage_enter_def deliver_Done)

theorem crawlPage_beyond_maxDepth_witness:
  "gt_num 3 (the_maxDepth default_options)
   \<and> crawlPage_enter url_parse default_options ''https://example.com/a/b/c'' 3 init_state =
       (Done (RouteNode ''/a/b/c'' ''https://example.com/a/b/c'' [] None
          (Some ''Max depth reached'')), init_state)"
proof -
  have d: "gt_num 3 (the_maxDepth default_options)"
    by (simp add: the_maxDepth_def default_options_def)
  have p: "getPathFromUrl url_parse ''https://example.com/a/b/c'' = ''/a/b/c''"
    by code_simp
  from crawlPage_beyond_maxDepth [OF d, of url_parse "''https://example.com/a/b/c''" init_state]
  show ?thesis using d p by simp
qed

text \<open>
  C10. When a call exceeds both budgets, the depth is tested first in the error message:
  the node's error is "Max depth reached" and not "Max pages reached", it has no status
  and no children.
\<close>

theorem depth_error_takes_precedence:
  assumes "gt_num depth (the_maxDepth options)"
    and "ge_num (pageCount st) (the_maxPages options)"
  shows "\<exists>n. fst (crawlPage_enter P options currentUrl depth st) = Done n
             \<and> error n = Some ''Max depth reached''
             \<and> error n \<noteq> Some ''Max pages reached''
             \<and> status n = None \<and> children n = []"
  using assms by (simp add: crawlPage_enter_def)

theorem depth_error_takes_precedence_witness:
  "gt_num 3 (the_maxDepth default_options)
   \<and> ge_num (pageCount (init_state\<lparr>pageCount := 50\<rparr>)) (the_maxPages default_options)
   \<and> (\<exists>n. fst (crawlPage_enter url_parse default_options ''https://example.com/x'' 3
                 (init_state\<lparr>pageCount := 50\<rparr>)) = Done n
          \<and> error n = Some ''Max depth reached'')"
proof -
  have d: "gt_num 3 (the_maxDepth default_options)"
    by (simp add: the_maxDepth_def default_options_def)
  have c: "ge_num (pageCount (init_state\<lparr>pageCount := 50\<rparr>)) (the_maxPages default_options)"
    by (simp add: the_maxPages_def default_options_def)
  from depth_error_takes_precedence [OF d c, of url_parse "''https://example.com/x''"]
  show ?thesis using d c by blast
qed


section \<open>The example crawl, evaluated\<close>

lemma example_run:
  "resolved (getRoutesFromPage url_parse ''example.com'' default_options example_schedule)
   = Some example_tree"
  by code_simp

lemma example_start:
  "URL_new url_parse
     (if startsWith ''example.com'' ''http'' then ''example.com'' else ''https://'' @ ''example.com'')
     None = Some example_base"
  by code_simp

lemma example_root_valid:
  "isValidUrl url_parse (href example_base) (hostname example_base)"
  by code_simp

lemma example_host: "hostname example_base = ''example.com''"
  by code_simp

section \<open>Settled children\<close>

lemma results_nodes:
  "n \<in> set (results ts) \<Longrightarrow> Done n \<in> set ts"
  by (induction ts rule: results.induct) auto

lemma settle_nodes:
  assumes "n \<in> set (task_nodes (settle (Joining p u s ts)))"
  shows "n \<in> set (concat (map task_nodes ts))
         \<or> n = RouteNode p u (filter (\<lambda>c. path c \<noteq> p) (results ts)) (Some s) None"
proof (cases "list_all is_done ts")
  case False
  with assms show ?thesis by simp
next
  case True
  with assms have "n = RouteNode p u (filter (\<lambda>c. path c \<noteq> p) (results ts)) (Some s) None
      \<or> (\<exists>c \<in> set (results ts). n \<in> set (nodes c))"
    by auto
  then show ?thesis
  proof
    assume "\<exists>c \<in> set (results ts). n \<in> set (nodes c)"
    then obtain c where c: "c \<in> set (results ts)" and n: "n \<in> set (nodes c)" by blast
    from c have "Done c \<in> set ts" by (rule results_nodes)
    with n have "\<exists>t \<in> set ts. n \<in> set (task_nodes t)"
      by (intro bexI [of _ "Done c"]) simp_all
    then show ?thesis by auto
  qed simp
qed

lemma settle_urls:
  assumes "v \<in> set (task_urls (settle (Joining p u s ts)))"
  shows "v = u \<or> v \<in> set (concat (map task_urls ts))"
proof (cases "list_all is_done ts")
  case False
  with assms show ?thesis by simp
next
  case True
  with assms have "v = u \<or> (\<exists>c \<in> set (results ts). v \<in> url ` set (nodes c))"
    by auto
  then show ?thesis
  proof
    assume "\<exists>c \<in> set (results ts). v \<in> url ` set (nodes c)"
    then obtain c where c: "c \<in> set (results ts)" and n: "v \<in> url ` set (nodes c)" by blast
    from c have "Done c \<in> set ts" by (rule results_nodes)
    with n have "\<exists>t \<in> set ts. v \<in> set (task_urls t)"
      by (intro bexI [of _ "Done c"]) simp_all
    then show ?thesis by auto
  qed simp
qed

lemma resolved_Done:
  "resolved c = Some tree \<Longrightarrow> fst c = Done tree"
  by (simp add: resolved_def split: task.splits)

section \<open>Status and error of the nodes\<close>

text \<open>
  The node without status and error (line 125) is built only for a URL that is already
  in \<open>visited\<close>. The root call starts from the empty set, and the loop of lines 192-196
  calls \<open>crawlPage\<close> only for a URL that is not in the set, without an \<^verbatim>\<open>await\<close> between
  its test and the test of line 124. So the branch is never taken.
\<close>

lemma enter_labelled:
  "currentUrl \<notin> visited st \<Longrightarrow> all_labelled (fst (crawlPage_enter P options currentUrl depth st))"
  by (simp add: crawlPage_enter_def all_labelled_def labelled_def Let_def)

lemma spawn_labelled:
  "\<forall>t \<in> set (fst (spawn P options depth links st)). all_labelled t"
proof (induction links arbitrary: st)
  case Nil
  then show ?case by simp
next
  case (Cons c links)
  show ?case
  proof (cases "c \<notin> visited st \<and> lt_num (pageCount st) (the_maxPages options)")
    case False
    with Cons show ?thesis by auto
  next
    case True
    obtain t1 st1 where e: "crawlPage_enter P options c depth st = (t1, st1)" by force
    obtain ts st2 where sp: "spawn P options depth links st1 = (ts, st2)" by force
    from True e have "all_labelled t1" using enter_labelled [of c st P options depth] by simp
    moreover from Cons.IH [of st1] sp have "\<forall>x \<in> set ts. all_labelled x" by simp
    ultimately show ?thesis using True e sp by auto
  qed
qed

lemma settle_labelled:
  "\<forall>t \<in> set ts. all_labelled t \<Longrightarrow> all_labelled (settle (Joining p u s ts))"
  unfolding all_labelled_def list_all_iff
proof
  fix n
  assume a: "\<forall>t\<in>set ts. \<forall>n\<in>set (task_nodes t). labelled n"
    and n: "n \<in> set (task_nodes (settle (Joining p u s ts)))"
  from settle_nodes [OF n] show "labelled n"
  proof
    assume "n \<in> set (concat (map task_nodes ts))"
    with a show ?thesis by auto
  next
    assume "n = RouteNode p u (filter (\<lambda>c. path c \<noteq> p) (results ts)) (Some s) None"
    then show ?thesis by (simp add: labelled_def)
  qed
qed

lemma resume_labelled:
  "all_labelled (fst (crawlPage_resume P options baseDomain u depth attempt st))"
proof -
  obtain response es where f: "fetchWithRetry attempt u = (response, es)" by force
  show ?thesis
  proof (cases response)
    case None
    with f show ?thesis by (simp add: crawlPage_resume_unfold all_labelled_def labelled_def)
  next
    case (Some r)
    show ?thesis
    proof (cases "ok r \<and> includes_str (case content_type r of None \<Rightarrow> [] | Some c \<Rightarrow> c) ''text/html''")
      case False
      with f Some show ?thesis
        by (auto simp add: crawlPage_resume_unfold all_labelled_def labelled_def Let_def)
    next
      case True
      show ?thesis
      proof (cases "body r")
        case (Rejects e)
        with f Some True show ?thesis
          by (simp add: crawlPage_resume_unfold all_labelled_def labelled_def)
      next
        case (Anchors hrefs)
        obtain ts st2 where sp: "spawn P options (depth + 1) (extract_links P u baseDomain hrefs)
            (st\<lparr>effects := effects st @ es\<rparr>) = (ts, st2)" by force
        have "\<forall>t \<in> set ts. all_labelled t"
          using spawn_labelled [of P options "depth + 1" "extract_links P u baseDomain hrefs"
              "st\<lparr>effects := effects st @ es\<rparr>"] sp by simp
        then have "all_labelled (settle (Joining (getPathFromUrl P u) u (resp_status r) ts))"
          by (rule settle_labelled)
        with f Some True Anchors sp show ?thesis
          by (simp add: crawlPage_resume_unfold Let_def)
      qed
    qed
  qed
qed

lemma deliver_labelled:
  "all_labelled t \<Longrightarrow> all_labelled (fst (deliver P options baseDomain pos attempt t st))"
proof (induction P options baseDomain pos attempt t st rule: deliver.induct)
  case (1 P options baseDomain attempt u depth st)
  show ?case by (simp add: resume_labelled)
next
  case (2 P options baseDomain i pos attempt p u s ts st)
  show ?case
  proof (cases "i < length ts")
    case False
    with 2 show ?thesis by simp
  next
    case True
    obtain t' st' where d: "deliver P options baseDomain pos attempt (ts ! i) st = (t', st')" by force
    from "2.prems" have all: "\<forall>t \<in> set ts. all_labelled t"
      by (auto simp: all_labelled_def list_all_iff)
    with True have "all_labelled (ts ! i)" by simp
    with "2.IH" [OF True] d have "all_labelled t'" by simp
    with all have "\<forall>t \<in> set (ts[i := t']). all_labelled t"
      by (auto dest: subsetD [OF set_update_subset_insert])
    then have "all_labelled (settle (Joining p u s (ts[i := t'])))" by (rule settle_labelled)
    with True d show ?thesis by simp
  qed
qed simp_all

lemma run_labelled:
  "all_labelled (fst c) \<Longrightarrow> all_labelled (fst (run P options baseDomain sched c))"
proof (induction sched arbitrary: c)
  case Nil
  then show ?case by simp
next
  case (Cons e sched)
  obtain pos attempt where e: "e = (pos, attempt)" by force
  have "all_labelled (fst (deliver P options baseDomain pos attempt (fst c) (snd c)))"
    using Cons.prems by (rule deliver_labelled)
  then show ?case using Cons.IH e by simp
qed

text \<open>
  C1. Whatever the parser, the start, the options, the answers of the network and the
  interleaving: every node of a tree that \<open>getRoutesFromPage\<close> resolves with has a status
  and no error, or has an error, and only one of the two descriptions applies. The node
  without both fields is never part of a returned tree.
\<close>

theorem nodes_labelled:
  assumes "resolved (getRoutesFromPage P start options sched) = Some tree"
    and "n \<in> set (nodes tree)"
  shows "labelled n"
proof -
  have "all_labelled (fst (getRoutesFromPage P start options sched))"
  proof (cases "URL_new P (if startsWith start ''http'' then start else ''https://'' @ start) None")
    case None
    then show ?thesis by (simp add: getRoutesFromPage_def all_labelled_def labelled_def)
  next
    case (Some baseUrl)
    have "all_labelled (fst (crawlPage_enter P options (href baseUrl) 0 init_state))"
      by (rule enter_labelled) (simp add: init_state_def)
    then show ?thesis by (simp add: getRoutesFromPage_run [OF Some] run_labelled)
  qed
  moreover from assms(1) have "fst (getRoutesFromPage P start options sched) = Done tree"
    by (rule resolved_Done)
  ultimately show ?thesis using assms(2) by (simp add: all_labelled_def list_all_iff)
qed

theorem nodes_labelled_witness:
  "resolved (getRoutesFromPage url_parse ''example.com'' default_options example_schedule)
     = Some example_tree
   \<and> list_all labelled (nodes example_tree)"
  using example_run nodes_labelled [OF example_run] by (simp add: list_all_iff)

section \<open>The retrying fetcher\<close>

lemma fetchWithRetry_unfold:
  "fetchWithRetry attempt u =
     (case attempt 0 of
        Some r \<Rightarrow> (Some r, [Fetch u])
      | None \<Rightarrow>
          (case attempt 1 of
             Some r \<Rightarrow> (Some r, [Fetch u, Sleep 1000, Fetch u])
           | None \<Rightarrow>
               (case attempt 2 of
                  Some r \<Rightarrow> (Some r, [Fetch u, Sleep 1000, Fetch u, Sleep 2000, Fetch u])
                | None \<Rightarrow> (None, [Fetch u, Sleep 1000, Fetch u, Sleep 2000, Fetch u]))))"
proof -
  have two: "(2::nat) = Suc (Suc 0)" by simp
  show ?thesis
    unfolding fetchWithRetry_def two
    by (simp add: fetchWithRetry_loop.simps [of attempt u "Suc (Suc 0)"] split: option.split)
qed


text \<open>
  C6. \<open>fetchWithRetry\<close> issues at most three requests. The first attempt that is
  answered ends the loop and its response is returned, whatever its status; after the
  failed attempt number \<open>n\<close> (counted from 1) the pause is \<open>1000 * n\<close> milliseconds; null
  is returned exactly when the three attempts have failed, and then the caller's node
  has the error "Failed to fetch after retries" and no status.
\<close>

theorem fetchWithRetry_three_attempts:
  "fetchWithRetry attempt u =
     (case attempt 0 of
        Some r \<Rightarrow> (Some r, [Fetch u])
      | None \<Rightarrow>
          (case attempt 1 of
             Some r \<Rightarrow> (Some r, [Fetch u, Sleep 1000, Fetch u])
           | None \<Rightarrow>
               (case attempt 2 of
                  Some r \<Rightarrow> (Some r, [Fetch u, Sleep 1000, Fetch u, Sleep 2000, Fetch u])
                | None \<Rightarrow> (None, [Fetch u, Sleep 1000, Fetch u, Sleep 2000, Fetch u]))))
   \<and> length (fetched_urls (snd (fetchWithRetry attempt u))) \<le> 3
   \<and> (fst (fetchWithRetry attempt u) = None
        \<longleftrightarrow> attempt 0 = None \<and> attempt 1 = None \<and> attempt 2 = None)
   \<and> (fst (fetchWithRetry attempt u) = None \<longrightarrow>
        crawlPage_resume P options baseDomain u depth attempt st =
          (Done (RouteNode (getPathFromUrl P u) u [] None (Some ''Failed to fetch after retries'')),
           st\<lparr>effects := effects st @ [Fetch u, Sleep 1000, Fetch u, Sleep 2000, Fetch u]\<rparr>))"
proof (intro conjI)
  show "length (fetched_urls (snd (fetchWithRetry attempt u))) \<le> 3"
    by (simp add: fetchWithRetry_unfold split: option.split)
  show "fst (fetchWithRetry attempt u) = None
        \<longleftrightarrow> attempt 0 = None \<and> attempt 1 = None \<and> attempt 2 = None"
    by (simp add: fetchWithRetry_unfold split: option.split)
  show "fst (fetchWithRetry attempt u) = None \<longrightarrow>
        crawlPage_resume P options baseDomain u depth attempt st =
          (Done (RouteNode (getPathFromUrl P u) u [] None (Some ''Failed to fetch after retries'')),
           st\<lparr>effects := effects st @ [Fetch u, Sleep 1000, Fetch u, Sleep 2000, Fetch u]\<rparr>)"
    by (simp add: crawlPage_resume_unfold fetchWithRetry_unfold split: option.split)
qed (rule fetchWithRetry_unfold)

theorem fetchWithRetry_three_attempts_witness:
  "fst (fetchWithRetry (answers []) ''https://example.com/c'') = None
   \<and> fetchWithRetry (answers [None, Some (page 503 ''text/html'' [])]) ''https://example.com/c''
       = (Some (page 503 ''text/html'' []),
          [Fetch ''https://example.com/c'', Sleep 1000, Fetch ''https://example.com/c''])
   \<and> crawlPage_resume url_parse default_options ''example.com'' ''https://example.com/c'' 1
        (answers []) init_state =
       (Done (RouteNode ''/c'' ''https://example.com/c'' [] None
          (Some ''Failed to fetch after retries'')),
        init_state\<lparr>effects := effects init_state @
          [Fetch ''https://example.com/c'', Sleep 1000, Fetch ''https://example.com/c'',
           Sleep 2000, Fetch ''https://example.com/c'']\<rparr>)"
proof -
  have n: "fst (fetchWithRetry (answers []) ''https://example.com/c'') = None"
    using fetchWithRetry_three_attempts [of "answers []" "''https://example.com/c''"]
    by (simp add: answers_def)
  have p: "getPathFromUrl url_parse ''https://example.com/c'' = ''/c''"
    by code_simp
  have "fetchWithRetry (answers [None, Some (page 503 ''text/html'' [])]) ''https://example.com/c''
       = (Some (page 503 ''text/html'' []),
          [Fetch ''https://example.com/c'', Sleep 1000, Fetch ''https://example.com/c''])"
    using fetchWithRetry_three_attempts
      [of "answers [None, Some (page 503 ''text/html'' [])]" "''https://example.com/c''"]
    by (simp add: answers_def)
  with n p show ?thesis
    using fetchWithRetry_three_attempts [of "answers []" "''https://example.com/c''"
        url_parse default_options "''example.com''" 1 init_state]
    by simp
qed

section \<open>Content that is not HTML\<close>




section \<open>The invalid start\<close>




section \<open>The hosts of the nodes\<close>

lemma extract_links_valid:
  "l \<in> set (extract_links P currentUrl baseDomain hrefs) \<Longrightarrow> isValidUrl P l baseDomain"
proof -
  let ?f = "\<lambda>links h.
              if h = [] then links
              else (let normalizedUrl = normalizeUrl P currentUrl h in
                    if normalizedUrl \<noteq> [] \<and> isValidUrl P normalizedUrl baseDomain
                    then add_link links normalizedUrl else links)"
  have step: "\<forall>l \<in> set (?f acc h). isValidUrl P l baseDomain"
    if "\<forall>l \<in> set acc. isValidUrl P l baseDomain" for acc h
    using that by (auto simp: add_link_def Let_def)
  have "\<forall>l \<in> set acc. isValidUrl P l baseDomain \<Longrightarrow>
        \<forall>l \<in> set (foldl ?f acc hrefs). isValidUrl P l baseDomain" for acc
  proof (induction hrefs arbitrary: acc)
    case Nil
    then show ?case by simp
  next
    case (Cons h hrefs)
    from step [OF Cons.prems] have "\<forall>l \<in> set (?f acc h). isValidUrl P l baseDomain" .
    from Cons.IH [OF this] show ?case by simp
  qed
  from this [of "[]"]
  show "l \<in> set (extract_links P currentUrl baseDomain hrefs) \<Longrightarrow> isValidUrl P l baseDomain"
    by (simp add: extract_links_def)
qed

lemma enter_valid:
  "isValidUrl P currentUrl baseDomain \<Longrightarrow>
   all_valid P baseDomain (fst (crawlPage_enter P options currentUrl depth st))"
  by (simp add: crawlPage_enter_def all_valid_def Let_def)

lemma spawn_valid:
  "\<forall>l \<in> set links. isValidUrl P l baseDomain \<Longrightarrow>
   \<forall>t \<in> set (fst (spawn P options depth links st)). all_valid P baseDomain t"
proof (induction links arbitrary: st)
  case Nil
  then show ?case by simp
next
  case (Cons c links)
  show ?case
  proof (cases "c \<notin> visited st \<and> lt_num (pageCount st) (the_maxPages options)")
    case False
    with Cons show ?thesis by auto
  next
    case True
    obtain t1 st1 where e: "crawlPage_enter P options c depth st = (t1, st1)" by force
    obtain ts st2 where sp: "spawn P options depth links st1 = (ts, st2)" by force
    from Cons.prems e have "all_valid P baseDomain t1"
      using enter_valid [of P c baseDomain options depth st] by simp
    moreover from Cons.IH [of st1] Cons.prems sp
    have "\<forall>x \<in> set ts. all_valid P baseDomain x" by simp
    ultimately show ?thesis using True e sp by auto
  qed
qed

lemma settle_valid:
  assumes "isValidUrl P u baseDomain" and "\<forall>t \<in> set ts. all_valid P baseDomain t"
  shows "all_valid P baseDomain (settle (Joining p u s ts))"
  unfolding all_valid_def list_all_iff
proof
  fix v
  assume "v \<in> set (task_urls (settle (Joining p u s ts)))"
  from settle_urls [OF this] show "isValidUrl P v baseDomain"
    using assms by (auto simp: all_valid_def list_all_iff)
qed

lemma resume_valid:
  assumes "isValidUrl P u baseDomain"
  shows "all_valid P baseDomain (fst (crawlPage_resume P options baseDomain u depth attempt st))"
proof -
  obtain response es where f: "fetchWithRetry attempt u = (response, es)" by force
  show ?thesis
  proof (cases response)
    case None
    with f assms show ?thesis by (simp add: crawlPage_resume_unfold all_valid_def)
  next
    case (Some r)
    show ?thesis
    proof (cases "ok r \<and> includes_str (case content_type r of None \<Rightarrow> [] | Some c \<Rightarrow> c) ''text/html''")
      case False
      with f Some assms show ?thesis
        by (auto simp add: crawlPage_resume_unfold all_valid_def Let_def)
    next
      case True
      show ?thesis
      proof (cases "body r")
        case (Rejects e)
        with f Some True assms show ?thesis
          by (simp add: crawlPage_resume_unfold all_valid_def)
      next
        case (Anchors hrefs)
        obtain ts st2 where sp: "spawn P options (depth + 1) (extract_links P u baseDomain hrefs)
            (st\<lparr>effects := effects st @ es\<rparr>) = (ts, st2)" by force
        have "\<forall>t \<in> set ts. all_valid P baseDomain t"
          using spawn_valid [of "extract_links P u baseDomain hrefs" P baseDomain options "depth + 1"
              "st\<lparr>effects := effects st @ es\<rparr>"] sp extract_links_valid [of _ P u baseDomain hrefs]
          by simp
        with assms
        have "all_valid P baseDomain (settle (Joining (getPathFromUrl P u) u (resp_status r) ts))"
          by (rule settle_valid)
        with f Some True Anchors sp show ?thesis
          by (simp add: crawlPage_resume_unfold Let_def)
      qed
    qed
  qed
qed

lemma deliver_valid:
  "all_valid P baseDomain t \<Longrightarrow>
   all_valid P baseDomain (fst (deliver P options baseDomain pos attempt t st))"
proof (induction P options baseDomain pos attempt t st rule: deliver.induct)
  case (1 P options baseDomain attempt u depth st)
  then have "isValidUrl P u baseDomain" by (simp add: all_valid_def)
  then show ?case by (simp add: resume_valid)
next
  case (2 P options baseDomain i pos attempt p u s ts st)
  show ?case
  proof (cases "i < length ts")
    case False
    with 2 show ?thesis by simp
  next
    case True
    obtain t' st' where d: "deliver P options baseDomain pos attempt (ts ! i) st = (t', st')" by force
    from "2.prems" have u: "isValidUrl P u baseDomain"
      and all: "\<forall>t \<in> set ts. all_valid P baseDomain t" by (auto simp: all_valid_def list_all_iff)
    with True have "all_valid P baseDomain (ts ! i)" by simp
    with "2.IH" [OF True] d have "all_valid P baseDomain t'" by simp
    with all have "\<forall>t \<in> set (ts[i := t']). all_valid P baseDomain t"
      by (auto dest: subsetD [OF set_update_subset_insert])
    with u have "all_valid P baseDomain (settle (Joining p u s (ts[i := t'])))" by (rule settle_valid)
    with True d show ?thesis by simp
  qed
qed simp_all

lemma run_valid:
  "all_valid P baseDomain (fst c) \<Longrightarrow> all_valid P baseDomain (fst (run P options baseDomain sched c))"
proof (induction sched arbitrary: c)
  case Nil
  then show ?case by simp
next
  case (Cons e sched)
  obtain pos attempt where e: "e = (pos, attempt)" by force
  have "all_valid P baseDomain (fst (deliver P options baseDomain pos attempt (fst c) (snd c)))"
    using Cons.prems by (rule deliver_valid)
  then show ?case using Cons.IH e by simp
qed

text \<open>
  C5. Let the start parse to \<open>baseUrl\<close>, so that the root host is \<open>hostname baseUrl\<close>, and
  let the parser read the serialization of \<open>baseUrl\<close> back with that hostname (the root
  node carries \<open>href baseUrl\<close>; that it parses back to the same host is a property of the
  platform's parser and serializer, not of the crawler). Then every node of a returned
  tree, error nodes included, has a URL that parses and whose hostname equals the root
  host, for every schedule; hence a link whose hostname differs, be it a subdomain or
  a www variant, is the URL of no node.
\<close>

theorem nodes_on_root_host:
  assumes "URL_new P (if startsWith start ''http'' then start else ''https://'' @ start) None
           = Some baseUrl"
    and "isValidUrl P (href baseUrl) (hostname baseUrl)"
    and "resolved (getRoutesFromPage P start options sched) = Some tree"
    and "n \<in> set (nodes tree)"
  shows "isValidUrl P (url n) (hostname baseUrl)
         \<and> (\<forall>l. \<not> isValidUrl P l (hostname baseUrl) \<longrightarrow> url n \<noteq> l)"
proof -
  have "all_valid P (hostname baseUrl) (fst (crawlPage_enter P options (href baseUrl) 0 init_state))"
    using assms(2) by (rule enter_valid)
  then have "all_valid P (hostname baseUrl) (fst (getRoutesFromPage P start options sched))"
    by (simp add: getRoutesFromPage_run [OF assms(1)] run_valid)
  moreover from assms(3) have "fst (getRoutesFromPage P start options sched) = Done tree"
    by (rule resolved_Done)
  ultimately have "isValidUrl P (url n) (hostname baseUrl)"
    using assms(4) by (simp add: all_valid_def list_all_iff)
  then show ?thesis by blast
qed

theorem nodes_on_root_host_witness:
  "URL_new url_parse
     (if startsWith ''example.com'' ''http'' then ''example.com'' else ''https://'' @ ''example.com'')
     None = Some example_base
   \<and> isValidUrl url_parse (href example_base) (hostname example_base)
   \<and> resolved (getRoutesFromPage url_parse ''example.com'' default_options example_schedule)
       = Some example_tree
   \<and> list_all (\<lambda>n. isValidUrl url_parse (url n) ''example.com'') (nodes example_tree)
   \<and> \<not> isValidUrl url_parse ''https://www.example.com/d'' ''example.com''
   \<and> list_all (\<lambda>n. url n \<noteq> ''https://www.example.com/d'') (nodes example_tree)"
proof -
  note h = nodes_on_root_host [OF example_start example_root_valid example_run]
  have a: "list_all (\<lambda>n. isValidUrl url_parse (url n) ''example.com'') (nodes example_tree)"
    using h by (simp add: list_all_iff example_host)
  have w: "\<not> isValidUrl url_parse ''https://www.example.com/d'' ''example.com''"
    by code_simp
  have "list_all (\<lambda>n. url n \<noteq> ''https://www.example.com/d'') (nodes example_tree)"
    unfolding list_all_iff
  proof
    fix n
    assume "n \<in> set (nodes example_tree)"
    from h [OF this] w show "url n \<noteq> ''https://www.example.com/d''"
      by (auto simp: example_host)
  qed
  with a w show ?thesis using example_start example_root_valid example_run by simp
qed

section \<open>The page budget\<close>
















section \<open>Termination\<close>

lemma wf_less_mset: "wf {(M, N :: nat multiset). M < N}"
proof -
  have "wfp ((<) :: nat \<Rightarrow> nat \<Rightarrow> bool)" by (simp add: wfp_def wf_less[unfolded less_than_def])
  then have "wfp ((<) :: nat multiset \<Rightarrow> nat multiset \<Rightarrow> bool)" by (rule wfp_less_multiset)
  then show ?thesis by (simp add: wfp_def)
qed

lemma below_singleton:
  assumes "\<forall>x \<in># M. x < (k::nat)"
  shows "M < {#k#}"
proof -
  have "({#} + M, {#} + {#k#}) \<in> mult {(x, y). x < y}"
    by (rule one_step_implies_mult) (use assms in auto)
  then show ?thesis by (simp add: less_multiset_def multp_def)
qed

lemma weight_done:
  "list_all is_done ts \<Longrightarrow> sum_list (map (weight md) ts) = {#}"
  by (induction ts rule: results.induct) simp_all

lemma weight_settle:
  "weight md (settle (Joining p u s ts)) = sum_list (map (weight md) ts)"
  by (simp add: weight_done)

lemma depth_left_step:
  assumes "depth_limited md" and "\<not> gt_num (d + 1) md"
  shows "depth_left md (d + 1) < depth_left md d"
proof (cases md)
  case (Finite r)
  with assms(2) have "real_of_int (d + 1) \<le> r" by simp
  then have "d + 1 \<le> \<lfloor>r\<rfloor>" by (simp add: le_floor_iff)
  with Finite show ?thesis by simp
qed (use assms in simp_all)

lemma enter_weight:
  assumes "depth_limited (the_maxDepth options)"
  shows "\<forall>x \<in># weight (the_maxDepth options) (fst (crawlPage_enter P options c (d + 1) st)).
           x < depth_left (the_maxDepth options) d"
  using depth_left_step [OF assms, of d] by (auto simp: crawlPage_enter_def Let_def)

lemma spawn_weight:
  assumes "depth_limited (the_maxDepth options)"
  shows "\<forall>t \<in> set (fst (spawn P options (d + 1) links st)).
           \<forall>x \<in># weight (the_maxDepth options) t. x < depth_left (the_maxDepth options) d"
proof (induction links arbitrary: st)
  case Nil
  then show ?case by simp
next
  case (Cons c links)
  show ?case
  proof (cases "c \<notin> visited st \<and> lt_num (pageCount st) (the_maxPages options)")
    case False
    with Cons show ?thesis by auto
  next
    case True
    obtain t1 st1 where e: "crawlPage_enter P options c (d + 1) st = (t1, st1)" by force
    obtain ts st2 where sp: "spawn P options (d + 1) links st1 = (ts, st2)" by force
    from enter_weight [OF assms, of P c d st] e
    have "\<forall>x \<in># weight (the_maxDepth options) t1. x < depth_left (the_maxDepth options) d"
      by simp
    moreover from Cons.IH [of st1] sp
    have "\<forall>t \<in> set ts. \<forall>x \<in># weight (the_maxDepth options) t.
            x < depth_left (the_maxDepth options) d"
      by simp
    ultimately show ?thesis using True e sp by auto
  qed
qed

lemma resume_weight:
  assumes "depth_limited (the_maxDepth options)"
  shows "weight (the_maxDepth options) (fst (crawlPage_resume P options baseDomain u d attempt st))
         < {#depth_left (the_maxDepth options) d#}"
proof (rule below_singleton)
  obtain response es where f: "fetchWithRetry attempt u = (response, es)" by force
  show "\<forall>x \<in># weight (the_maxDepth options) (fst (crawlPage_resume P options baseDomain u d attempt st)).
          x < depth_left (the_maxDepth options) d"
  proof (cases response)
    case None
    with f show ?thesis by (simp add: crawlPage_resume_unfold)
  next
    case (Some r)
    show ?thesis
    proof (cases "ok r \<and> includes_str (case content_type r of None \<Rightarrow> [] | Some c \<Rightarrow> c) ''text/html''")
      case False
      with f Some show ?thesis
        by (auto simp add: crawlPage_resume_unfold Let_def)
    next
      case True
      show ?thesis
      proof (cases "body r")
        case (Rejects e)
        with f Some True show ?thesis
          by (simp add: crawlPage_resume_unfold)
      next
        case (Anchors hrefs)
        obtain ts st2 where sp: "spawn P options (d + 1) (extract_links P u baseDomain hrefs)
            (st\<lparr>effects := effects st @ es\<rparr>) = (ts, st2)" by force
        from spawn_weight [OF assms, of P d "extract_links P u baseDomain hrefs"
            "st\<lparr>effects := effects st @ es\<rparr>"] sp
        have "\<forall>t \<in> set ts. \<forall>x \<in># weight (the_maxDepth options) t.
                x < depth_left (the_maxDepth options) d"
          by simp
        then have "\<forall>x \<in># weight (the_maxDepth options)
              (settle (Joining (getPathFromUrl P u) u (resp_status r) ts)).
            x < depth_left (the_maxDepth options) d"
          unfolding weight_settle by auto
        with f Some True Anchors sp show ?thesis
          by (simp add: crawlPage_resume_unfold Let_def del: settle.simps)
      qed
    qed
  qed
qed

lemma sum_list_update_less:
  fixes w :: "'a \<Rightarrow> nat multiset"
  assumes "i < length ts" and "w t' < w (ts ! i)"
  shows "sum_list (map w (ts[i := t'])) < sum_list (map w ts)"
proof -
  have a: "ts = take i ts @ ts ! i # drop (Suc i) ts"
    using assms(1) by (rule id_take_nth_drop)
  have b: "ts[i := t'] = take i ts @ t' # drop (Suc i) ts"
    using assms(1) by (rule upd_conv_take_nth_drop)
  have "sum_list (map w (take i ts)) + (w t' + sum_list (map w (drop (Suc i) ts)))
        < sum_list (map w (take i ts)) + (w (ts ! i) + sum_list (map w (drop (Suc i) ts)))"
    using assms(2) by (intro union_le_mono2 union_le_mono1)
  moreover have "sum_list (map w ts)
      = sum_list (map w (take i ts)) + (w (ts ! i) + sum_list (map w (drop (Suc i) ts)))"
    by (subst a) simp
  ultimately show ?thesis by (simp add: b)
qed

lemma deliver_weight:
  assumes "depth_limited (the_maxDepth options)"
  shows "pending_at pos t \<Longrightarrow>
         weight (the_maxDepth options) (fst (deliver P options baseDomain pos attempt t st))
         < weight (the_maxDepth options) t"
  using assms
proof (induction P options baseDomain pos attempt t st rule: deliver.induct)
  case (1 P options baseDomain attempt u depth st)
  then show ?case by (simp add: resume_weight)
next
  case (2 P options baseDomain i pos attempt p u s ts st)
  from "2.prems" have i: "i < length ts" and pa: "pending_at pos (ts ! i)" by simp_all
  obtain t' st' where d: "deliver P options baseDomain pos attempt (ts ! i) st = (t', st')" by force
  from "2.IH" [OF i pa "2.prems"(2)] d
  have "weight (the_maxDepth options) t' < weight (the_maxDepth options) (ts ! i)" by simp
  with i have "sum_list (map (weight (the_maxDepth options)) (ts[i := t']))
      < sum_list (map (weight (the_maxDepth options)) ts)"
    by (rule sum_list_update_less)
  with i d show ?case by (simp add: weight_settle del: settle.simps)
qed simp_all

lemma wf_crawl_step_depth:
  assumes "depth_limited (the_maxDepth options)"
  shows "wf (crawl_step P options baseDomain)"
proof (rule wf_subset)
  show "wf (inv_image {(M, N :: nat multiset). M < N} (\<lambda>c. weight (the_maxDepth options) (fst c)))"
    by (rule wf_inv_image) (rule wf_less_mset)
  show "crawl_step P options baseDomain
        \<subseteq> inv_image {(M, N). M < N} (\<lambda>c. weight (the_maxDepth options) (fst c))"
    by (auto simp: crawl_step_def inv_image_def deliver_weight [OF assms])
qed

lemma count_done:
  "list_all is_done ts \<Longrightarrow> sum_list (map count_pending ts) = 0"
  by (induction ts rule: results.induct) simp_all

lemma count_settle:
  "count_pending (settle (Joining p u s ts)) = sum_list (map count_pending ts)"
  by (simp add: count_done)

lemma enter_cost:
  assumes "pages_limited (the_maxPages options)"
    and "lt_num (pageCount st) (the_maxPages options)"
  shows "2 * pages_left (the_maxPages options) (pageCount (snd (crawlPage_enter P options c d st)))
           + count_pending (fst (crawlPage_enter P options c d st))
         \<le> 2 * pages_left (the_maxPages options) (pageCount st)"
proof (cases "the_maxPages options")
  case (Finite r)
  with assms(2) have "real_of_int (pageCount st) < r" by simp
  then have "pageCount st < \<lceil>r\<rceil>" by (simp add: less_ceiling_iff)
  with Finite show ?thesis by (auto simp: crawlPage_enter_def Let_def)
qed (use assms in simp_all)

lemma spawn_cost:
  assumes "pages_limited (the_maxPages options)"
  shows "2 * pages_left (the_maxPages options) (pageCount (snd (spawn P options d links st)))
           + sum_list (map count_pending (fst (spawn P options d links st)))
         \<le> 2 * pages_left (the_maxPages options) (pageCount st)"
proof (induction links arbitrary: st)
  case Nil
  then show ?case by simp
next
  case (Cons c links)
  show ?case
  proof (cases "c \<notin> visited st \<and> lt_num (pageCount st) (the_maxPages options)")
    case False
    with Cons show ?thesis by auto
  next
    case True
    obtain t1 st1 where e: "crawlPage_enter P options c d st = (t1, st1)" by force
    obtain ts st2 where sp: "spawn P options d links st1 = (ts, st2)" by force
    from enter_cost [OF assms, of st P c d] True e
    have "2 * pages_left (the_maxPages options) (pageCount st1) + count_pending t1
          \<le> 2 * pages_left (the_maxPages options) (pageCount st)" by simp
    moreover from Cons.IH [of st1] sp
    have "2 * pages_left (the_maxPages options) (pageCount st2) + sum_list (map count_pending ts)
          \<le> 2 * pages_left (the_maxPages options) (pageCount st1)" by simp
    ultimately show ?thesis using True e sp by simp
  qed
qed

lemma resume_cost:
  assumes "pages_limited (the_maxPages options)"
  shows "2 * pages_left (the_maxPages options)
               (pageCount (snd (crawlPage_resume P options baseDomain u d attempt st)))
           + count_pending (fst (crawlPage_resume P options baseDomain u d attempt st))
         \<le> 2 * pages_left (the_maxPages options) (pageCount st)"
proof -
  obtain response es where f: "fetchWithRetry attempt u = (response, es)" by force
  show ?thesis
  proof (cases response)
    case None
    with f show ?thesis by (simp add: crawlPage_resume_unfold)
  next
    case (Some r)
    show ?thesis
    proof (cases "ok r \<and> includes_str (case content_type r of None \<Rightarrow> [] | Some c \<Rightarrow> c) ''text/html''")
      case False
      with f Some show ?thesis
        by (auto simp add: crawlPage_resume_unfold Let_def)
    next
      case True
      show ?thesis
      proof (cases "body r")
        case (Rejects e)
        with f Some True show ?thesis
          by (simp add: crawlPage_resume_unfold)
      next
        case (Anchors hrefs)
        obtain ts st2 where sp: "spawn P options (d + 1) (extract_links P u baseDomain hrefs)
            (st\<lparr>effects := effects st @ es\<rparr>) = (ts, st2)" by force
        from spawn_cost [OF assms, of P "d + 1" "extract_links P u baseDomain hrefs"
            "st\<lparr>effects := effects st @ es\<rparr>"] sp
        have "2 * pages_left (the_maxPages options) (pageCount st2)
                + sum_list (map count_pending ts)
              \<le> 2 * pages_left (the_maxPages options) (pageCount st)"
          by simp
        with f Some True Anchors sp show ?thesis
          by (simp add: crawlPage_resume_unfold Let_def count_settle del: settle.simps)
      qed
    qed
  qed
qed

lemma sum_list_update_nat:
  fixes w :: "'a \<Rightarrow> nat"
  assumes "i < length ts"
  shows "sum_list (map w (ts[i := t'])) + w (ts ! i) = sum_list (map w ts) + w t'"
proof -
  have a: "ts = take i ts @ ts ! i # drop (Suc i) ts"
    using assms by (rule id_take_nth_drop)
  have b: "ts[i := t'] = take i ts @ t' # drop (Suc i) ts"
    using assms by (rule upd_conv_take_nth_drop)
  have "sum_list (map w ts)
      = sum_list (map w (take i ts)) + (w (ts ! i) + sum_list (map w (drop (Suc i) ts)))"
    by (subst a) simp
  then show ?thesis by (simp add: b)
qed

lemma deliver_cost:
  assumes "pages_limited (the_maxPages options)"
  shows "pending_at pos t \<Longrightarrow>
         2 * pages_left (the_maxPages options)
               (pageCount (snd (deliver P options baseDomain pos attempt t st)))
           + count_pending (fst (deliver P options baseDomain pos attempt t st))
         < 2 * pages_left (the_maxPages options) (pageCount st) + count_pending t"
  using assms
proof (induction P options baseDomain pos attempt t st rule: deliver.induct)
  case (1 P options baseDomain attempt u depth st)
  from resume_cost [OF "1.prems"(2), of P baseDomain u depth attempt st]
  show ?case by simp
next
  case (2 P options baseDomain i pos attempt p u s ts st)
  from "2.prems" have i: "i < length ts" and pa: "pending_at pos (ts ! i)" by simp_all
  obtain t' st' where d: "deliver P options baseDomain pos attempt (ts ! i) st = (t', st')" by force
  from "2.IH" [OF i pa "2.prems"(2)] d
  have "2 * pages_left (the_maxPages options) (pageCount st') + count_pending t'
        < 2 * pages_left (the_maxPages options) (pageCount st) + count_pending (ts ! i)" by simp
  moreover from sum_list_update_nat [OF i, of count_pending t']
  have "sum_list (map count_pending (ts[i := t'])) + count_pending (ts ! i)
        = sum_list (map count_pending ts) + count_pending t'" .
  ultimately have "2 * pages_left (the_maxPages options) (pageCount st')
        + sum_list (map count_pending (ts[i := t']))
      < 2 * pages_left (the_maxPages options) (pageCount st) + sum_list (map count_pending ts)"
    by linarith
  with i d show ?case by (simp add: count_settle del: settle.simps)
qed simp_all

lemma wf_crawl_step_pages:
  assumes "pages_limited (the_maxPages options)"
  shows "wf (crawl_step P options baseDomain)"
proof (rule wf_subset)
  show "wf (measure (cost options))" by simp
  show "crawl_step P options baseDomain \<subseteq> measure (cost options)"
    by (auto simp: crawl_step_def cost_def deliver_cost [OF assms])
qed

lemma wf_crawl_step:
  "depth_limited (the_maxDepth options) \<or> pages_limited (the_maxPages options) \<Longrightarrow>
   wf (crawl_step P options baseDomain)"
  by (auto intro: wf_crawl_step_depth wf_crawl_step_pages)

section \<open>Normalizing twice\<close>

text \<open>
  C9. Normalization should be idempotent: normalizing the result of \<open>normalizeUrl\<close> again
  should return it unchanged. The guard of lines 33-41 compares the link with the
  rejected prefixes character by character, while the URL parser lower-cases the scheme
  (and drops leading spaces). So the link \<^verbatim>\<open>JavaScript:void(0)\<close> passes the guard and
  normalizes to \<^verbatim>\<open>javascript:void(0)\<close>, which the guard rejects: the second normalization
  returns the empty string.
\<close>

theorem normalizeUrl_not_idempotent:
  "normalizeUrl url_parse ''https://example.com/'' ''JavaScript:void(0)'' = ''javascript:void(0)''
   \<and> normalizeUrl url_parse ''https://example.com/about'' ''javascript:void(0)'' = []
   \<and> normalizeUrl url_parse ''https://example.com/about''
         (normalizeUrl url_parse ''https://example.com/'' ''JavaScript:void(0)'')
       \<noteq> normalizeUrl url_parse ''https://example.com/'' ''JavaScript:void(0)''"
  by code_simp

end
